theory Spec2Isabelle
  imports Main "HOL-Library.Word" "HOL-Library.Char_ord" "HOL-Library.Monad_Syntax"
begin

unbundle bit_operations_syntax

section \<open>The OCaml symbol demangler of LLVM's Demangle library\<close>

text \<open>
  The development embeds \<^verbatim>\<open>llvm/lib/Demangle/OcamlDemangle.cpp\<close>: the static helper
  \<^verbatim>\<open>hex\<close> and the function \<^verbatim>\<open>llvm::ocamlDemangle\<close>. A C \<^verbatim>\<open>char\<close> is a HOL
  \<^typ>\<open>char\<close> (one byte), C strings are \<^typ>\<open>string\<close>s read up to their first NUL byte,
  \<^verbatim>\<open>unsigned int\<close> is \<^typ>\<open>32 word\<close>. The parameter \<^verbatim>\<open>sym\<close> is written \<open>symb\<close>, since
  \<open>sym\<close> is a constant of HOL. The counters \<^verbatim>\<open>i\<close>, \<^verbatim>\<open>j\<close> and \<^verbatim>\<open>len\<close> are C
  \<^verbatim>\<open>int\<close>s of 32 bits. The length of the string is cut to an \<^verbatim>\<open>int\<close> as the
  conversion from \<^verbatim>\<open>size_t\<close> does; behind the assertion the counters are never
  negative, so they are natural numbers, and every addition on them is checked against
  \<^verbatim>\<open>INT_MAX\<close>, a signed overflow being undefined. \<^verbatim>\<open>std::malloc\<close> may refuse the
  request. Every access to memory is checked: a read outside the string object, a read of a
  cell of the heap block that was never written and a write outside the block all
  yield \<open>None\<close>, which stands for undefined behaviour.
\<close>

subsection \<open>Memory: the argument string and the heap block\<close>

definition NUL :: char where
  "NUL = CHR 0x00"

text \<open>
  \<^verbatim>\<open>strlen\<close>: the number of bytes before the first NUL. The list holds the bytes at the
  argument pointer; the terminator of a list without a NUL byte sits right behind it.
\<close>

fun strlen :: "string \<Rightarrow> nat" where
  "strlen [] = 0"
| "strlen (c # cs) = (if c = NUL then 0 else Suc (strlen cs))"

text \<open>
  \<^verbatim>\<open>sym[k]\<close>: the string object is the bytes before the terminator and the terminator
  itself; anything behind the terminator is outside the object.
\<close>

definition sym_at :: "string \<Rightarrow> nat \<Rightarrow> char option" where
  "sym_at symb k =
     (if k < strlen symb then Some (symb ! k)
      else if k = strlen symb then Some NUL
      else None)"

text \<open>
  The block returned by \<^verbatim>\<open>std::malloc\<close>: one cell per byte, \<open>None\<close> while the cell is
  uninitialised. Whether the request is granted is up to the environment, hence a
  parameter. A refused request returns the null pointer, which is the block without
  cells: every access through it fails.
\<close>

type_synonym buffer = "char option list"

definition malloc :: "bool \<Rightarrow> nat \<Rightarrow> buffer" where
  "malloc granted n = (if granted then replicate n None else [])"

definition load :: "buffer \<Rightarrow> nat \<Rightarrow> char option" where
  "load buf k = (if k < length buf then buf ! k else None)"

definition store :: "buffer \<Rightarrow> nat \<Rightarrow> char \<Rightarrow> buffer option" where
  "store buf k c = (if k < length buf then Some (buf[k := Some c]) else None)"

text \<open>What a caller reads through the returned \<^verbatim>\<open>char*\<close>: the bytes up to the first NUL.\<close>

fun c_string :: "buffer \<Rightarrow> string option" where
  "c_string [] = None"
| "c_string (None # cells) = None"
| "c_string (Some c # cells) =
     (if c = NUL then Some [] else map_option ((#) c) (c_string cells))"

subsection \<open>The type \<^verbatim>\<open>int\<close>\<close>

definition INT_MAX :: int where
  "INT_MAX = 2147483647"

text \<open>
  \<^verbatim>\<open>int len = strlen(sym)\<close>: the conversion of a \<^verbatim>\<open>size_t\<close> to \<^verbatim>\<open>int\<close> keeps the value
  modulo \<open>2\<^sup>3\<^sup>2\<close>, in the range from \<open>-2\<^sup>3\<^sup>1\<close> to \<open>2\<^sup>3\<^sup>1 - 1\<close>, whether
  \<^verbatim>\<open>size_t\<close> has 32 or 64 bits.
\<close>

definition to_int :: "nat \<Rightarrow> int" where
  "to_int n = (int n + 2147483648) mod 4294967296 - 2147483648"

text \<open>The sum of two \<^verbatim>\<open>int\<close>s that are not negative; beyond \<^verbatim>\<open>INT_MAX\<close> it is undefined.\<close>

definition int_add :: "nat \<Rightarrow> nat \<Rightarrow> nat option" where
  "int_add a b = (if int a + int b \<le> INT_MAX then Some (a + b) else None)"

subsection \<open>Character classes of the C library\<close>

text \<open>
  Modelled from the spec: \<^verbatim>\<open>isdigit\<close> and \<^verbatim>\<open>isxdigit\<close> belong to the C library
  (\<^verbatim>\<open><cctype>\<close>), whose code is not among the sources. The specification names the
  decimal digits and the hex digits \<^verbatim>\<open>0-9\<close>, \<^verbatim>\<open>a-f\<close>, \<^verbatim>\<open>A-F\<close>, which is what the C
  standard fixes for every locale. The functions are applied to a plain \<^verbatim>\<open>char\<close>; a byte from 0x80 on is in
  neither class, as in the tables of the C libraries, which cover the negative
  values of a signed \<^verbatim>\<open>char\<close>.
\<close>

definition isdigit :: "char \<Rightarrow> bool" where
  "isdigit c \<longleftrightarrow> CHR ''0'' \<le> c \<and> c \<le> CHR ''9''"

definition isxdigit :: "char \<Rightarrow> bool" where
  "isxdigit c \<longleftrightarrow>
     isdigit c \<or> (CHR ''a'' \<le> c \<and> c \<le> CHR ''f'') \<or> (CHR ''A'' \<le> c \<and> c \<le> CHR ''F'')"

subsection \<open>The helper \<^verbatim>\<open>hex\<close>\<close>

text \<open>
  \<^verbatim>\<open>
  static unsigned int hex(char c) {
    if (c >= '0' && c <= '9') return c - '0';
    if (c >= 'a' && c <= 'f') return c - 'a' + 10;
    return c - 'A' + 10;
  }
  \<close>
  The subtraction is done on the promoted byte and wraps into \<^verbatim>\<open>unsigned int\<close>. Here
  the byte is promoted to a value from 0 to 255, as on a target whose \<^verbatim>\<open>char\<close> is
  unsigned.
\<close>

definition hex :: "char \<Rightarrow> 32 word" where
  "hex c =
     (if c \<ge> CHR ''0'' \<and> c \<le> CHR ''9'' then of_char c - of_char (CHR ''0'')
      else if c \<ge> CHR ''a'' \<and> c \<le> CHR ''f'' then of_char c - of_char (CHR ''a'') + 10
      else of_char c - of_char (CHR ''A'') + 10)"

text \<open>
  On a target whose \<^verbatim>\<open>char\<close> is signed a byte from 0x80 on is promoted to a negative
  value. The two comparisons come out the same there (such a byte is in neither
  range), and the last branch yields a value that is lower by 256. The byte that the
  function stores for an escape is the same on both kinds of target
  (lemma \<open>escape_byte_signed\<close>).
\<close>

definition hex_signed :: "char \<Rightarrow> 32 word" where
  "hex_signed c =
     (if c \<ge> CHR ''0'' \<and> c \<le> CHR ''9'' then of_char c - of_char (CHR ''0'')
      else if c \<ge> CHR ''a'' \<and> c \<le> CHR ''f'' then of_char c - of_char (CHR ''a'') + 10
      else (if of_char c < (128::nat) then of_char c else of_char c - 256) - of_char (CHR ''A'') + 10)"

subsection \<open>The function \<^verbatim>\<open>ocamlDemangle\<close>\<close>

text \<open>
  The two guards of the scanning loop, with the short-circuit evaluation of \<^verbatim>\<open>&&\<close>:
  an operand is read only when the operands to its left are true. The sums
  \<^verbatim>\<open>i + 1\<close> and \<^verbatim>\<open>i + 2\<close> of the indices stay below the overflow, since the loop
  runs with \<^verbatim>\<open>i < len\<close> and the sum \<^verbatim>\<open>len + 1\<close> has been formed before.
\<close>

definition is_separator :: "string \<Rightarrow> nat \<Rightarrow> bool option" where
  "is_separator symb i =
     do {
       c0 \<leftarrow> sym_at symb i;
       if c0 = CHR ''_'' then do { c1 \<leftarrow> sym_at symb (i + 1); Some (c1 = CHR ''_'') }
       else Some False
     }"

definition is_escape :: "string \<Rightarrow> nat \<Rightarrow> bool option" where
  "is_escape symb i =
     do {
       c0 \<leftarrow> sym_at symb i;
       if c0 = CHR ''$'' then
         do {
           c1 \<leftarrow> sym_at symb (i + 1);
           if isxdigit c1 then do { c2 \<leftarrow> sym_at symb (i + 2); Some (isxdigit c2) }
           else Some False
         }
       else Some False
     }"

text \<open>The byte stored for an escape: \<^verbatim>\<open>(hex(sym[i + 1]) << 4) | hex(sym[i + 2])\<close>, cut to a \<^verbatim>\<open>char\<close>.\<close>

definition escape_byte :: "char \<Rightarrow> char \<Rightarrow> char" where
  "escape_byte c1 c2 = char_of (unat (push_bit 4 (hex c1) OR hex c2))"

declare Option.bind_cong [fundef_cong]

text \<open>
  The loop \<^verbatim>\<open>while (i < len)\<close>; the state is the block \<^verbatim>\<open>result\<close> and the counters
  \<^verbatim>\<open>i\<close> and \<^verbatim>\<open>j\<close>. Each branch stores through \<^verbatim>\<open>result[j++]\<close> and then moves
  \<^verbatim>\<open>i\<close> on.
\<close>

function scan :: "string \<Rightarrow> nat \<Rightarrow> nat \<Rightarrow> buffer \<Rightarrow> nat \<Rightarrow> (buffer \<times> nat) option" where
  "scan symb len i result j =
     (if i < len then
        do {
          sep \<leftarrow> is_separator symb i;
          if sep then
            do {
              result' \<leftarrow> store result j (CHR ''.'');
              j' \<leftarrow> int_add j 1;
              i' \<leftarrow> int_add i 2;
              scan symb len i' result' j'
            }
          else
            do {
              esc \<leftarrow> is_escape symb i;
              if esc then
                do {
                  c1 \<leftarrow> sym_at symb (i + 1);
                  c2 \<leftarrow> sym_at symb (i + 2);
                  result' \<leftarrow> store result j (escape_byte c1 c2);
                  j' \<leftarrow> int_add j 1;
                  i' \<leftarrow> int_add i 3;
                  scan symb len i' result' j'
                }
              else
                do {
                  c0 \<leftarrow> sym_at symb i;
                  result' \<leftarrow> store result j c0;
                  j' \<leftarrow> int_add j 1;
                  i' \<leftarrow> int_add i 1;
                  scan symb len i' result' j'
                }
            }
        }
      else Some (result, j))"
  by pat_completeness auto
termination
  by (relation "measure (\<lambda>(symb, len, i, result, j). len - i)")
    (auto simp: int_add_def split: if_splits)

declare scan.simps [simp del]

text \<open>
  The loop \<^verbatim>\<open>while (--j) { if (!isdigit(result[j])) break; }\<close>: the argument is \<^verbatim>\<open>j\<close>
  before the decrement, the value is \<^verbatim>\<open>j\<close> after the loop. The function enters the
  loop with a positive \<^verbatim>\<open>j\<close> only; from 0 the decrement would give -1, and
  \<^verbatim>\<open>result[-1]\<close> lies outside the block.
\<close>

function trim_loop :: "buffer \<Rightarrow> nat \<Rightarrow> nat option" where
  "trim_loop result j =
     (if j = 0 then None
      else
        let j' = j - 1 in
        if j' \<noteq> 0 then
          do {
            c \<leftarrow> load result j';
            if \<not> isdigit c then Some j' else trim_loop result j'
          }
        else Some j')"
  by pat_completeness auto
termination
  by (relation "measure (\<lambda>(result, j). j)") auto

declare trim_loop.simps [simp del]

text \<open>The block after the main loop: the trailing \<^verbatim>\<open>"_"\<close> with decimal digits is cut off.\<close>

definition trim :: "buffer \<Rightarrow> nat \<Rightarrow> buffer option" where
  "trim result j =
     (if j \<noteq> 0 then
        do {
          c \<leftarrow> load result (j - 1);
          if isdigit c then
            do {
              j' \<leftarrow> trim_loop result j;
              c' \<leftarrow> load result j';
              if c' = CHR ''_'' then store result j' NUL else Some result
            }
          else Some result
        }
      else Some result)"

text \<open>
  The statements of the function behind its assertion, for a length \<open>len\<close> that has
  passed it. First the block of \<^verbatim>\<open>len + 1\<close> bytes is requested and the main loop runs
  from \<^verbatim>\<open>i = 4\<close> and \<^verbatim>\<open>j = 0\<close>; the pointer is not examined.
\<close>

definition allocate_and_scan :: "bool \<Rightarrow> string \<Rightarrow> nat \<Rightarrow> (buffer \<times> nat) option" where
  "allocate_and_scan granted symb len =
     do {
       size \<leftarrow> int_add len 1;
       scan symb len 4 (malloc granted size) 0
     }"

definition demangle_body :: "bool \<Rightarrow> string \<Rightarrow> nat \<Rightarrow> buffer option" where
  "demangle_body granted symb len =
     do {
       (result, j) \<leftarrow> allocate_and_scan granted symb len;
       result \<leftarrow> store result j NUL;
       trim result j
     }"

datatype error = AssertionFailed | UndefinedBehaviour

text \<open>
  \<^verbatim>\<open>assert(len >= 5)\<close> stops the program when it fails; assertions are taken to be
  compiled in. The value is the block that the returned pointer refers to.
\<close>

definition ocamlDemangle :: "bool \<Rightarrow> string \<Rightarrow> error + buffer" where
  "ocamlDemangle granted symb =
     (let len = to_int (strlen symb) in
      if \<not> len \<ge> 5 then Inl AssertionFailed
      else case demangle_body granted symb (nat len) of
             None \<Rightarrow> Inl UndefinedBehaviour
           | Some result \<Rightarrow> Inr result)"

text \<open>The decoded name: the string that the caller finds at the returned pointer.\<close>

definition decode :: "bool \<Rightarrow> string \<Rightarrow> error + string" where
  "decode granted symb =
     (case ocamlDemangle granted symb of
        Inl e \<Rightarrow> Inl e
      | Inr result \<Rightarrow> (case c_string result of None \<Rightarrow> Inl UndefinedBehaviour | Some s \<Rightarrow> Inr s))"

text \<open>The cells that the main loop has written when it ends, if the function gets that far.\<close>

definition main_scan :: "bool \<Rightarrow> string \<Rightarrow> buffer option" where
  "main_scan granted symb =
     (let len = to_int (strlen symb) in
      if \<not> len \<ge> 5 then None
      else
        do {
          (result, j) \<leftarrow> allocate_and_scan granted symb (nat len);
          Some (take j result)
        })"

section \<open>The decoder as the specification describes it\<close>

text \<open>
  The specification speaks of byte sequences, not of memory. The input of the decoder
  is the sequence of bytes before the terminator.
\<close>

definition string_of :: "string \<Rightarrow> string" where
  "string_of symb = take (strlen symb) symb"

text \<open>
  The three rules of the main scan on the bytes behind the prefix, in their fixed
  order: the separator, the escape, the literal byte. A rule of two or three bytes
  applies only where all its bytes exist.
\<close>

fun spec_scan :: "string \<Rightarrow> string" where
  "spec_scan (a # b # c # cs) =
     (if a = CHR ''_'' \<and> b = CHR ''_'' then CHR ''.'' # spec_scan (c # cs)
      else if a = CHR ''$'' \<and> isxdigit b \<and> isxdigit c then escape_byte b c # spec_scan cs
      else a # spec_scan (b # c # cs))"
| "spec_scan [a, b] =
     (if a = CHR ''_'' \<and> b = CHR ''_'' then [CHR ''.''] else a # spec_scan [b])"
| "spec_scan [a] = [a]"
| "spec_scan [] = []"

text \<open>
  A trailing numeric suffix: the output ends in a run of one or more decimal digits,
  and the byte in front of the whole run is an underscore.
\<close>

definition has_numeric_suffix :: "string \<Rightarrow> bool" where
  "has_numeric_suffix out \<longleftrightarrow>
     takeWhile isdigit (rev out) \<noteq> [] \<and>
     (case dropWhile isdigit (rev out) of [] \<Rightarrow> False | c # before \<Rightarrow> c = CHR ''_'')"

text \<open>The suffix trim: the output without the underscore and the digits behind it.\<close>

definition spec_trim :: "string \<Rightarrow> string" where
  "spec_trim out =
     (if has_numeric_suffix out then rev (tl (dropWhile isdigit (rev out))) else out)"

text \<open>A sequence holds the pair \<^verbatim>\<open>__\<close>; it holds a \<^verbatim>\<open>$\<close> with two hex digits behind it.\<close>

fun has_separator :: "string \<Rightarrow> bool" where
  "has_separator (a # b # cs) = (a = CHR ''_'' \<and> b = CHR ''_'' \<or> has_separator (b # cs))"
| "has_separator cs = False"

fun has_escape :: "string \<Rightarrow> bool" where
  "has_escape (a # b # c # cs) =
     (a = CHR ''$'' \<and> isxdigit b \<and> isxdigit c \<or> has_escape (b # c # cs))"
| "has_escape cs = False"

text \<open>
  The two hex digits of a byte value, the high nibble first; each digit is taken from
  the lowercase or from the uppercase digits.
\<close>

definition lower_hex :: string where
  "lower_hex = ''0123456789abcdef''"

definition upper_hex :: string where
  "upper_hex = ''0123456789ABCDEF''"

definition twoHexDigits :: "string \<Rightarrow> string \<Rightarrow> nat \<Rightarrow> string" where
  "twoHexDigits hi lo b = [hi ! (b div 16), lo ! (b mod 16)]"

section \<open>The code computes what the specification describes\<close>

subsection \<open>Strings and their terminator\<close>

lemma strlen_le: "strlen s \<le> length s"
  by (induction s) auto

lemma strlen_nth: "k < strlen s \<Longrightarrow> s ! k \<noteq> NUL"
proof (induction s arbitrary: k)
  case Nil then show ?case by simp
next
  case (Cons c cs)
  then show ?case by (cases k) (auto split: if_splits)
qed

lemma strlen_no_NUL: "NUL \<notin> set s \<Longrightarrow> strlen s = length s"
  by (induction s) auto

lemma length_string_of: "length (string_of s) = strlen s"
  by (simp add: string_of_def strlen_le)

lemma string_of_nth: "k < strlen s \<Longrightarrow> string_of s ! k = s ! k"
  by (simp add: string_of_def)

lemma NUL_not_digit: "\<not> isdigit NUL" "\<not> isxdigit NUL" "NUL \<noteq> CHR ''_''" "NUL \<noteq> CHR ''$''"
  by (simp_all add: isdigit_def isxdigit_def NUL_def)

lemma sym_at_in: "k < strlen s \<Longrightarrow> sym_at s k = Some (s ! k)"
  by (simp add: sym_at_def)

lemma sym_at_end: "sym_at s (strlen s) = Some NUL"
  by (simp add: sym_at_def)

lemma is_separator_eq:
  assumes "i < strlen s"
  shows "is_separator s i = Some (s ! i = CHR ''_'' \<and> i + 1 < strlen s \<and> s ! (i + 1) = CHR ''_'')"
proof (cases "i + 1 < strlen s")
  case True
  with assms show ?thesis by (simp add: is_separator_def sym_at_in)
next
  case False
  with assms have "i + 1 = strlen s" by simp
  then have "sym_at s (i + 1) = Some NUL" by (simp add: sym_at_end)
  with assms False show ?thesis by (simp add: is_separator_def sym_at_in NUL_not_digit)
qed

lemma is_escape_eq:
  assumes "i < strlen s"
  shows "is_escape s i =
    Some (s ! i = CHR ''$'' \<and> i + 2 < strlen s \<and> isxdigit (s ! (i + 1)) \<and> isxdigit (s ! (i + 2)))"
proof -
  consider "i + 1 = strlen s" | "i + 2 = strlen s" | "i + 2 < strlen s"
    using assms by linarith
  then show ?thesis
  proof cases
    case 1
    then have "sym_at s (i + 1) = Some NUL" by (simp add: sym_at_end)
    with assms 1 show ?thesis by (simp add: is_escape_def sym_at_in NUL_not_digit)
  next
    case 2
    then have "sym_at s (i + 2) = Some NUL" "sym_at s (i + 1) = Some (s ! (i + 1))"
      by (simp_all add: sym_at_def)
    with assms 2 show ?thesis by (simp add: is_escape_def sym_at_in NUL_not_digit)
  next
    case 3
    then have "sym_at s (i + 2) = Some (s ! (i + 2))" "sym_at s (i + 1) = Some (s ! (i + 1))"
      by (simp_all add: sym_at_def)
    with assms 3 show ?thesis by (simp add: is_escape_def sym_at_in)
  qed
qed

lemma spec_scan_drop:
  assumes "i < length cs"
  shows "spec_scan (drop i cs) =
    (if cs ! i = CHR ''_'' \<and> i + 1 < length cs \<and> cs ! (i + 1) = CHR ''_''
       then CHR ''.'' # spec_scan (drop (i + 2) cs)
     else if cs ! i = CHR ''$'' \<and> i + 2 < length cs \<and> isxdigit (cs ! (i + 1)) \<and> isxdigit (cs ! (i + 2))
       then escape_byte (cs ! (i + 1)) (cs ! (i + 2)) # spec_scan (drop (i + 3) cs)
     else cs ! i # spec_scan (drop (i + 1) cs))"
proof -
  consider "i + 1 = length cs" | "i + 2 = length cs" | "i + 2 < length cs"
    using assms by linarith
  then show ?thesis
  proof cases
    case 1
    then have "drop i cs = [cs ! i]" "drop (i + 1) cs = []"
      using assms by (simp_all flip: Cons_nth_drop_Suc)
    with 1 show ?thesis by simp
  next
    case 2
    then have "drop i cs = [cs ! i, cs ! (i + 1)]"
      "drop (i + 1) cs = [cs ! (i + 1)]" "drop (i + 2) cs = []"
      using assms by (simp_all flip: Cons_nth_drop_Suc)
    with 2 show ?thesis by simp
  next
    case 3
    then have "drop i cs = cs ! i # cs ! (i + 1) # cs ! (i + 2) # drop (i + 3) cs"
      "drop (i + 1) cs = cs ! (i + 1) # cs ! (i + 2) # drop (i + 3) cs"
      "drop (i + 2) cs = cs ! (i + 2) # drop (i + 3) cs" 
      using assms by (simp_all flip: Cons_nth_drop_Suc add: numeral_3_eq_3 numeral_2_eq_2)
    with 3 show ?thesis by simp
  qed
qed

lemma length_spec_scan: "length (spec_scan cs) \<le> length cs"
  by (induction cs rule: spec_scan.induct) auto

subsection \<open>Lengths that fit an int\<close>

lemma to_int_id: "n < 2 ^ 31 \<Longrightarrow> to_int n = int n"
  by (simp add: to_int_def)

lemma int_add_in_range: "int a + int b \<le> INT_MAX \<Longrightarrow> int_add a b = Some (a + b)"
  by (simp add: int_add_def)

lemma int_add_below:
  assumes "a + b \<le> n" and "int n \<le> INT_MAX"
  shows "int_add a b = Some (a + b)"
proof -
  have "int a + int b \<le> int n" using assms(1) by linarith
  with assms(2) show ?thesis by (simp add: int_add_def)
qed

subsection \<open>The main loop\<close>

lemma take_Suc_update: "j < length r \<Longrightarrow> take (Suc j) (r[j := x]) = take j r @ [x]"
  by (simp add: take_Suc_conv_app_nth)

lemma scan_refines:
  assumes "i \<le> strlen s" and "j + (strlen s - i) \<le> length result"
    and "j \<le> i" and "int (strlen s) \<le> INT_MAX"
  shows "scan s (strlen s) i result j =
    Some (take j result @ map Some (spec_scan (drop i (string_of s)))
            @ drop (j + length (spec_scan (drop i (string_of s)))) result,
          j + length (spec_scan (drop i (string_of s))))"
  using assms
proof (induction "strlen s - i" arbitrary: i result j rule: less_induct)
  case less
  let ?cs = "string_of s"
  note fits = \<open>int (strlen s) \<le> INT_MAX\<close>
  show ?case
  proof (cases "i < strlen s")
    case False
    with less.prems have "i = strlen s" by simp
    then have "drop i ?cs = []" by (simp add: length_string_of)
    with False show ?thesis by (simp add: scan.simps [of s "strlen s" i])
  next
    case True
    then have il: "i < length ?cs" by (simp add: length_string_of)
    have jl: "j < length result" using True less.prems by simp
    have j1: "int_add j 1 = Some (j + 1)"
      using True less.prems(3) fits by (intro int_add_below [of j 1 "strlen s"]) simp_all
    note unf = spec_scan_drop [OF il, unfolded length_string_of]
    have n0: "?cs ! i = s ! i" using True by (simp add: string_of_nth)
    consider (sep) "s ! i = CHR ''_''" "i + 1 < strlen s" "s ! (i + 1) = CHR ''_''"
      | (esc) "\<not> (s ! i = CHR ''_'' \<and> i + 1 < strlen s \<and> s ! (i + 1) = CHR ''_'')"
          "s ! i = CHR ''$''" "i + 2 < strlen s" "isxdigit (s ! (i + 1))" "isxdigit (s ! (i + 2))"
      | (lit) "\<not> (s ! i = CHR ''_'' \<and> i + 1 < strlen s \<and> s ! (i + 1) = CHR ''_'')"
          "\<not> (s ! i = CHR ''$'' \<and> i + 2 < strlen s \<and> isxdigit (s ! (i + 1)) \<and> isxdigit (s ! (i + 2)))"
      by blast
    then show ?thesis
    proof cases
      case sep
      have n1: "?cs ! (i + 1) = s ! (i + 1)" using sep by (simp add: string_of_nth)
      have spec: "spec_scan (drop i ?cs) = CHR ''.'' # spec_scan (drop (i + 2) ?cs)"
        using sep n0 n1 by (simp add: unf)
      have i2: "int_add i 2 = Some (i + 2)"
        using sep fits by (intro int_add_below [of i 2 "strlen s"]) simp_all
      have ih: "scan s (strlen s) (i + 2) (result[j := Some CHR ''.'']) (j + 1) =
        Some (take (j + 1) (result[j := Some CHR ''.'']) @ map Some (spec_scan (drop (i + 2) ?cs))
            @ drop (j + 1 + length (spec_scan (drop (i + 2) ?cs))) (result[j := Some CHR ''.'']),
          j + 1 + length (spec_scan (drop (i + 2) ?cs)))"
        using sep less.prems by (intro less.hyps) simp_all
      have "scan s (strlen s) i result j = scan s (strlen s) (i + 2) (result[j := Some CHR ''.'']) (j + 1)"
        using True sep jl j1 i2
        by (simp add: scan.simps [of s "strlen s" i] is_separator_eq store_def)
      then show ?thesis
        using jl ih by (simp add: spec take_Suc_update)
    next
      case esc
      have n1: "?cs ! (i + 1) = s ! (i + 1)" "?cs ! (i + 2) = s ! (i + 2)"
        using esc by (simp_all add: string_of_nth)
      let ?b = "escape_byte (s ! (i + 1)) (s ! (i + 2))"
      have spec: "spec_scan (drop i ?cs) = ?b # spec_scan (drop (i + 3) ?cs)"
        using esc n0 n1 by (simp add: unf)
      have i3: "int_add i 3 = Some (i + 3)"
        using esc fits by (intro int_add_below [of i 3 "strlen s"]) simp_all
      have ih: "scan s (strlen s) (i + 3) (result[j := Some ?b]) (j + 1) =
        Some (take (j + 1) (result[j := Some ?b]) @ map Some (spec_scan (drop (i + 3) ?cs))
            @ drop (j + 1 + length (spec_scan (drop (i + 3) ?cs))) (result[j := Some ?b]),
          j + 1 + length (spec_scan (drop (i + 3) ?cs)))"
        using esc less.prems by (intro less.hyps) simp_all
      have "scan s (strlen s) i result j = scan s (strlen s) (i + 3) (result[j := Some ?b]) (j + 1)"
        using True esc jl j1 i3
        by (simp add: scan.simps [of s "strlen s" i] is_separator_eq is_escape_eq store_def
            sym_at_in)
      then show ?thesis
        using jl ih by (simp add: spec take_Suc_update)
    next
      case lit
      have n1: "i + 1 < strlen s \<Longrightarrow> ?cs ! (i + 1) = s ! (i + 1)"
        "i + 2 < strlen s \<Longrightarrow> ?cs ! (i + 2) = s ! (i + 2)"
        by (simp_all add: string_of_nth)
      have spec: "spec_scan (drop i ?cs) = s ! i # spec_scan (drop (i + 1) ?cs)"
        using lit n0 n1 by (auto simp add: unf)
      have i1: "int_add i 1 = Some (i + 1)"
        using True fits by (intro int_add_below [of i 1 "strlen s"]) simp_all
      have ih: "scan s (strlen s) (i + 1) (result[j := Some (s ! i)]) (j + 1) =
        Some (take (j + 1) (result[j := Some (s ! i)]) @ map Some (spec_scan (drop (i + 1) ?cs))
            @ drop (j + 1 + length (spec_scan (drop (i + 1) ?cs))) (result[j := Some (s ! i)]),
          j + 1 + length (spec_scan (drop (i + 1) ?cs)))"
        using True less.prems by (intro less.hyps) simp_all
      have "is_separator s i = Some False" "is_escape s i = Some False"
        using True lit by (simp_all add: is_separator_eq is_escape_eq)
      then have "scan s (strlen s) i result j = scan s (strlen s) (i + 1) (result[j := Some (s ! i)]) (j + 1)"
        using True jl j1 i1 by (simp add: scan.simps [of s "strlen s" i] store_def sym_at_in)
      then show ?thesis
        using jl ih by (simp add: spec take_Suc_update)
    qed
  qed
qed

subsection \<open>The suffix trim\<close>

lemma underscore_not_digit: "\<not> isdigit CHR ''_''"
  by (simp add: isdigit_def)

lemma numeric_suffix_split:
  assumes "list_all isdigit ds" and "\<not> isdigit c"
  shows "takeWhile isdigit (rev ds @ c # q) = rev ds"
    and "dropWhile isdigit (rev ds @ c # q) = c # q"
proof -
  have ds: "\<And>x. x \<in> set (rev ds) \<Longrightarrow> isdigit x"
    using assms(1) by (simp add: list_all_iff)
  have "takeWhile isdigit (rev ds @ c # q) = rev ds @ takeWhile isdigit (c # q)"
    using ds by (rule takeWhile_append2)
  then show "takeWhile isdigit (rev ds @ c # q) = rev ds"
    using assms(2) by simp
  have "dropWhile isdigit (rev ds @ c # q) = dropWhile isdigit (c # q)"
    using ds by (rule dropWhile_append2)
  then show "dropWhile isdigit (rev ds @ c # q) = c # q"
    using assms(2) by simp
qed

lemma has_numeric_suffixI:
  "ds \<noteq> [] \<Longrightarrow> list_all isdigit ds \<Longrightarrow> has_numeric_suffix (p @ CHR ''_'' # ds)"
  by (simp add: has_numeric_suffix_def numeric_suffix_split underscore_not_digit)

lemma trailing_digits_split:
  "out = rev (dropWhile isdigit (rev out)) @ rev (takeWhile isdigit (rev out))"
  by (metis rev_append rev_rev_ident takeWhile_dropWhile_id)

lemma has_numeric_suffixD:
  assumes "has_numeric_suffix out"
  shows "\<exists>p ds. out = p @ CHR ''_'' # ds \<and> ds \<noteq> [] \<and> list_all isdigit ds"
proof -
  let ?ds = "rev (takeWhile isdigit (rev out))"
  from assms obtain before where b: "dropWhile isdigit (rev out) = CHR ''_'' # before"
    by (auto simp: has_numeric_suffix_def split: list.splits)
  have "out = rev before @ CHR ''_'' # ?ds"
    using trailing_digits_split [of out] by (simp add: b)
  moreover have "?ds \<noteq> []" using assms by (simp add: has_numeric_suffix_def)
  moreover have "list_all isdigit ?ds"
    by (simp add: list_all_iff) (meson set_takeWhileD)
  ultimately show ?thesis by blast
qed

lemma has_numeric_suffix_iff:
  "has_numeric_suffix out \<longleftrightarrow>
     (\<exists>p ds. out = p @ CHR ''_'' # ds \<and> ds \<noteq> [] \<and> list_all isdigit ds)"
  using has_numeric_suffixD has_numeric_suffixI by blast

lemma spec_trim_suffix:
  "ds \<noteq> [] \<Longrightarrow> list_all isdigit ds \<Longrightarrow> spec_trim (p @ CHR ''_'' # ds) = p"
  by (simp add: spec_trim_def has_numeric_suffixI numeric_suffix_split underscore_not_digit)

lemma load_written: "k < length out \<Longrightarrow> load (map Some out @ cells) k = Some (out ! k)"
  by (simp add: load_def nth_append)

lemma trim_loop_stops:
  assumes "k < j" and "j \<le> length out"
    and "\<forall>m. k < m \<and> m < j \<longrightarrow> isdigit (out ! m)"
    and "k = 0 \<or> \<not> isdigit (out ! k)"
  shows "trim_loop (map Some out @ cells) j = Some k"
  using assms
proof (induction j)
  case 0
  then show ?case by simp
next
  case (Suc j)
  have unf: "trim_loop (map Some out @ cells) (Suc j) =
    (if j \<noteq> 0 then if \<not> isdigit (out ! j) then Some j else trim_loop (map Some out @ cells) j
     else Some j)"
    using Suc.prems by (subst trim_loop.simps) (simp add: load_written)
  consider "j = 0" | "j \<noteq> 0" "j = k" | "j \<noteq> 0" "k < j"
    using Suc.prems by linarith
  then show ?case
  proof cases
    case 1
    with Suc.prems unf show ?thesis by simp
  next
    case 2
    with Suc.prems unf show ?thesis by simp
  next
    case 3
    then have "isdigit (out ! j)" using Suc.prems by simp
    moreover have "trim_loop (map Some out @ cells) j = Some k"
      using 3 Suc.prems by (intro Suc.IH) simp_all
    ultimately show ?thesis using 3 unf by simp
  qed
qed

lemma trim_loop_run:
  assumes "ds \<noteq> []" and "list_all isdigit ds" and "\<not> isdigit c"
  shows "trim_loop (map Some (p @ c # ds) @ cells) (length (p @ c # ds)) = Some (length p)"
proof (rule trim_loop_stops)
  show "length p < length (p @ c # ds)" by simp
  show "length (p @ c # ds) \<le> length (p @ c # ds)" by simp
  show "\<forall>m. length p < m \<and> m < length (p @ c # ds) \<longrightarrow> isdigit ((p @ c # ds) ! m)"
  proof (intro allI impI)
    fix m assume m: "length p < m \<and> m < length (p @ c # ds)"
    then have "(p @ c # ds) ! m = ds ! (m - length p - 1)"
      by (simp add: nth_append nth_Cons')
    moreover have "m - length p - 1 < length ds" using m by auto
    ultimately show "isdigit ((p @ c # ds) ! m)"
      using assms(2) by (simp add: list_all_length)
  qed
  show "length p = 0 \<or> \<not> isdigit ((p @ c # ds) ! length p)"
    using assms(3) by simp
qed

lemma trim_loop_all_digits:
  assumes "ds \<noteq> []" and "list_all isdigit ds"
  shows "trim_loop (map Some ds @ cells) (length ds) = Some 0"
proof (rule trim_loop_stops)
  show "0 < length ds" using assms by simp
  show "\<forall>m. 0 < m \<and> m < length ds \<longrightarrow> isdigit (ds ! m)"
    using assms(2) by (simp add: list_all_length)
qed simp_all

lemma trim_cut:
  assumes "ds \<noteq> []" and "list_all isdigit ds"
  shows "trim (map Some (p @ CHR ''_'' # ds) @ cells) (length (p @ CHR ''_'' # ds)) =
    Some (map Some p @ Some NUL # map Some ds @ cells)"
proof -
  let ?out = "p @ CHR ''_'' # ds"
  let ?result = "map Some ?out @ cells"
  have last: "load ?result (length ?out - 1) = Some (last ds)"
    using assms(1) load_written [of "length ?out - 1" ?out cells]
    by (simp add: last_conv_nth nth_append)
  have "isdigit (last ds)"
    using assms by (simp add: list_all_iff)
  moreover have "trim_loop ?result (length ?out) = Some (length p)"
    using assms by (rule trim_loop_run) (rule underscore_not_digit)
  moreover have "load ?result (length p) = Some CHR ''_''"
    using load_written [of "length p" ?out cells] by simp
  moreover have "store ?result (length p) NUL = Some (map Some p @ Some NUL # map Some ds @ cells)"
    by (simp add: store_def list_update_append)
  ultimately show ?thesis
    using last by (simp add: trim_def)
qed

lemma takeWhile_rev_Nil: "takeWhile P (rev out) = [] \<longleftrightarrow> out = [] \<or> \<not> P (last out)"
  by (cases out rule: rev_cases) auto

lemma trim_keep:
  assumes "\<not> has_numeric_suffix out"
  shows "trim (map Some out @ cells) (length out) = Some (map Some out @ cells)"
proof (cases "takeWhile isdigit (rev out) = []")
  case True
  then consider "out = []" | "out \<noteq> []" "\<not> isdigit (last out)"
    by (auto simp: takeWhile_rev_Nil)
  then show ?thesis
  proof cases
    case 1
    then show ?thesis by (simp add: trim_def)
  next
    case 2
    then have "load (map Some out @ cells) (length out - 1) = Some (last out)"
      using load_written [of "length out - 1" out cells] by (simp add: last_conv_nth)
    with 2 show ?thesis by (simp add: trim_def)
  qed
next
  case False
  let ?ds = "rev (takeWhile isdigit (rev out))"
  have ds: "?ds \<noteq> []" "list_all isdigit ?ds"
    using False by (auto simp: list_all_iff dest: set_takeWhileD)
  have ne: "out \<noteq> []" "isdigit (last out)"
    using False by (auto simp: takeWhile_rev_Nil)
  then have last: "load (map Some out @ cells) (length out - 1) = Some (last out)"
    using load_written [of "length out - 1" out cells] by (simp add: last_conv_nth)
  show ?thesis
  proof (cases "dropWhile isdigit (rev out)")
    case Nil
    then have "takeWhile isdigit (rev out) = rev out"
      using takeWhile_dropWhile_id [of isdigit "rev out"] by simp
    then have out: "out = ?ds" by (simp only: rev_rev_ident)
    have "trim_loop (map Some ?ds @ cells) (length ?ds) = Some 0"
      using ds by (rule trim_loop_all_digits)
    then have "trim_loop (map Some out @ cells) (length out) = Some 0"
      using out by simp
    moreover have "load (map Some out @ cells) 0 = Some (out ! 0)"
      using ne by (simp add: load_written)
    moreover have "isdigit (out ! 0)"
      using ds(2) ne out by (metis length_greater_0_conv list_all_length)
    then have "out ! 0 \<noteq> CHR ''_''" using underscore_not_digit by auto
    ultimately show ?thesis using ne last by (simp add: trim_def)
  next
    case (Cons c before)
    define p where "p = rev before"
    have out: "out = p @ c # ?ds"
      using Cons trailing_digits_split [of out] by (simp add: p_def)
    have c: "\<not> isdigit c" using Cons hd_dropWhile [of isdigit "rev out"] by auto
    have "c \<noteq> CHR ''_''"
      using assms False Cons by (simp add: has_numeric_suffix_def)
    have "trim_loop (map Some (p @ c # ?ds) @ cells) (length (p @ c # ?ds)) = Some (length p)"
      using ds c by (rule trim_loop_run)
    then have "trim_loop (map Some out @ cells) (length out) = Some (length p)"
      using out by simp
    moreover have "load (map Some (p @ c # ?ds) @ cells) (length p) = Some c"
      using load_written [of "length p" "p @ c # ?ds" cells] by simp
    then have "load (map Some out @ cells) (length p) = Some c"
      using out by simp
    ultimately show ?thesis using ne last \<open>c \<noteq> CHR ''_''\<close> by (simp add: trim_def)
  qed
qed

lemma c_string_written:
  "c_string (map Some out @ Some NUL # cells) = Some (takeWhile (\<lambda>c. c \<noteq> NUL) out)"
  by (induction out) auto

lemma trim_refines:
  "\<exists>result'. trim (map Some out @ Some NUL # cells) (length out) = Some result' \<and>
     c_string result' = Some (takeWhile (\<lambda>c. c \<noteq> NUL) (spec_trim out))"
proof (cases "has_numeric_suffix out")
  case True
  then obtain p ds where out: "out = p @ CHR ''_'' # ds" and ds: "ds \<noteq> []" "list_all isdigit ds"
    using has_numeric_suffixD by blast
  have "trim (map Some out @ Some NUL # cells) (length out) =
      Some (map Some p @ Some NUL # map Some ds @ Some NUL # cells)"
    unfolding out using ds by (rule trim_cut)
  moreover have "spec_trim out = p"
    unfolding out using ds by (rule spec_trim_suffix)
  ultimately show ?thesis by (simp add: c_string_written)
next
  case False
  then have "trim (map Some out @ Some NUL # cells) (length out) = Some (map Some out @ Some NUL # cells)"
    by (rule trim_keep)
  moreover have "spec_trim out = out" using False by (simp add: spec_trim_def)
  ultimately show ?thesis by (simp add: c_string_written)
qed

lemma scan_from_4:
  assumes "4 \<le> strlen s" and "int (strlen s) \<le> INT_MAX"
  shows "scan s (strlen s) 4 (malloc True (strlen s + 1)) 0 =
    Some (map Some (spec_scan (drop 4 (string_of s)))
            @ replicate (strlen s + 1 - length (spec_scan (drop 4 (string_of s)))) None,
          length (spec_scan (drop 4 (string_of s))))"
proof -
  let ?out = "spec_scan (drop 4 (string_of s))"
  let ?block = "malloc True (strlen s + 1)"
  have "scan s (strlen s) 4 ?block 0 =
      Some (take 0 ?block @ map Some ?out @ drop (0 + length ?out) ?block, 0 + length ?out)"
    using assms by (intro scan_refines) (simp_all add: malloc_def)
  moreover have "drop (0 + length ?out) ?block = replicate (strlen s + 1 - length ?out) None"
    unfolding malloc_def by (simp only: drop_replicate add_0 if_True)
  ultimately show ?thesis by simp
qed

lemma allocate_and_scan_refines:
  assumes "4 \<le> strlen s" and "strlen s < 2 ^ 31 - 1"
  shows "allocate_and_scan True s (strlen s) =
    Some (map Some (spec_scan (drop 4 (string_of s)))
            @ replicate (strlen s + 1 - length (spec_scan (drop 4 (string_of s)))) None,
          length (spec_scan (drop 4 (string_of s))))"
proof -
  have fits: "int (strlen s) \<le> INT_MAX" using assms(2) by (simp add: INT_MAX_def)
  have "int_add (strlen s) 1 = Some (strlen s + 1)"
    using assms(2) by (intro int_add_in_range) (simp add: INT_MAX_def)
  then show ?thesis
    unfolding allocate_and_scan_def using scan_from_4 [OF assms(1) fits] by simp
qed

lemma length_scanned: "length (spec_scan (drop 4 (string_of s))) \<le> strlen s - 4"
  using length_spec_scan [of "drop 4 (string_of s)"] by (simp add: length_string_of)

lemma store_terminator:
  assumes "n = length out" and "n < m"
  shows "store (map Some out @ replicate (m - n) None) n NUL =
    Some (map Some out @ Some NUL # replicate (m - n - 1) None)"
proof -
  obtain k where "m - n = Suc k" using assms by (metis Suc_diff_Suc)
  then show ?thesis using assms by (simp add: store_def list_update_append)
qed

lemma demangle_body_refines:
  assumes "4 \<le> strlen s" and "strlen s < 2 ^ 31 - 1"
  shows "\<exists>result. demangle_body True s (strlen s) = Some result \<and>
    c_string result = Some (takeWhile (\<lambda>c. c \<noteq> NUL) (spec_trim (spec_scan (drop 4 (string_of s)))))"
proof -
  let ?out = "spec_scan (drop 4 (string_of s))"
  let ?cells = "replicate (strlen s + 1 - length ?out - 1) None"
  have lt: "length ?out < strlen s + 1" using length_scanned [of s] by simp
  have st: "store (map Some ?out @ replicate (strlen s + 1 - length ?out) None) (length ?out) NUL
      = Some (map Some ?out @ Some NUL # ?cells)"
    using lt by (intro store_terminator) simp_all
  obtain result' where tr: "trim (map Some ?out @ Some NUL # ?cells) (length ?out) = Some result'"
    and cs: "c_string result' = Some (takeWhile (\<lambda>c. c \<noteq> NUL) (spec_trim ?out))"
    using trim_refines by blast
  have "demangle_body True s (strlen s) = Some result'"
    unfolding demangle_body_def allocate_and_scan_refines [OF assms] using st tr by simp
  with cs show ?thesis by blast
qed

lemma passes_assertion:
  assumes "5 \<le> strlen s" and "strlen s < 2 ^ 31 - 1"
  shows "to_int (strlen s) \<ge> 5" and "nat (to_int (strlen s)) = strlen s"
  using assms by (simp_all add: to_int_id)

lemma decode_refines:
  assumes "5 \<le> strlen s" and "strlen s < 2 ^ 31 - 1"
  shows "decode True s = Inr (takeWhile (\<lambda>c. c \<noteq> NUL) (spec_trim (spec_scan (drop 4 (string_of s)))))"
proof -
  from assms have "4 \<le> strlen s" by simp
  from demangle_body_refines [OF this assms(2)] obtain result where
    "demangle_body True s (strlen s) = Some result"
    "c_string result = Some (takeWhile (\<lambda>c. c \<noteq> NUL) (spec_trim (spec_scan (drop 4 (string_of s)))))"
    by blast
  then show ?thesis
    using passes_assertion [OF assms] by (simp add: decode_def ocamlDemangle_def)
qed

subsection \<open>Hex digits\<close>

lemma hex_tables:
  "list_all (\<lambda>n. hex (lower_hex ! n) = of_nat n \<and> isxdigit (lower_hex ! n)
      \<and> hex (upper_hex ! n) = of_nat n \<and> isxdigit (upper_hex ! n)) [0..<16]"
  by code_simp

lemma hex_digit:
  assumes "n < 16" and "tab = lower_hex \<or> tab = upper_hex"
  shows "hex (tab ! n) = of_nat n" and "isxdigit (tab ! n)"
  using assms hex_tables by (auto simp only: list_all_iff set_upt atLeastLessThan_iff)

lemma high_low_nibble:
  assumes "n < 16" and "m < 16"
  shows "unat (push_bit 4 (of_nat n :: 32 word) OR of_nat m) = 16 * n + m"
proof -
  have m: "take_bit 4 m = m" using assms(2) by (simp add: take_bit_nat_eq_self_iff)
  have "push_bit 4 n AND take_bit 4 m = 0"
    by (rule bit_eqI) (auto simp add: bit_simps)
  then have "push_bit 4 n AND m = 0" by (simp only: m)
  then have nat: "push_bit 4 n OR m = 16 * n + m"
    by (simp add: disjunctive_add_eq_or [symmetric] push_bit_eq_mult)
  have "push_bit 4 (of_nat n :: 32 word) OR of_nat m = of_nat (push_bit 4 n OR m)"
    by (simp add: of_nat_or_eq of_nat_push_bit)
  then have "unat (push_bit 4 (of_nat n :: 32 word) OR of_nat m) = (16 * n + m) mod 2 ^ 32"
    by (simp only: nat unat_of_nat len_num0 len_bit0 len_num1) simp
  then show ?thesis
    using assms by simp
qed

text \<open>The signedness of \<^verbatim>\<open>char\<close> does not reach the stored byte.\<close>

lemma low_byte_minus_256_int: "take_bit 8 (k - 256) = take_bit 8 k" for k :: int
proof -
  have "take_bit 8 (k - 256) = take_bit 8 (take_bit 8 k - take_bit 8 256)"
    by (simp only: take_bit_diff)
  then show ?thesis by simp
qed

lemma low_byte_minus_256: "take_bit 8 (w - 256) = take_bit 8 w" for w :: "32 word"
proof (rule bit_eqI)
  fix n
  have "bit (take_bit 8 (k - 256)) n = bit (take_bit 8 k) n" for k :: int
    by (simp only: low_byte_minus_256_int)
  then have "n < 8 \<Longrightarrow> bit (k - 256) n = bit k n" for k :: int
    by (simp add: bit_take_bit_iff)
  then have "n < 8 \<Longrightarrow> bit (w - 256) n = bit w n"
    by transfer (simp add: bit_take_bit_iff)
  then show "bit (take_bit 8 (w - 256)) n = bit (take_bit 8 w) n"
    by (auto simp add: bit_take_bit_iff)
qed

lemma hex_signed_low_byte: "take_bit 8 (hex_signed c) = take_bit 8 (hex c)"
proof -
  have "hex_signed c = hex c \<or> hex_signed c = hex c - 256"
    by (simp add: hex_signed_def hex_def)
  then show ?thesis by (auto simp: low_byte_minus_256)
qed

lemma low_byte_of_nibbles:
  "take_bit 8 (push_bit 4 a OR b) = take_bit 8 (push_bit 4 (take_bit 8 a) OR take_bit 8 b)"
  for a b :: "32 word"
  by (rule bit_eqI) (auto simp: bit_simps)

lemma char_of_low_byte: "char_of (unat (take_bit 8 w)) = char_of (unat w)" for w :: "32 word"
  by (simp add: unsigned_take_bit_eq char_of_take_bit_eq)

lemma escape_byte_signed:
  "char_of (unat (push_bit 4 (hex_signed c1) OR hex_signed c2)) = escape_byte c1 c2"
proof -
  have "take_bit 8 (push_bit 4 (hex_signed c1) OR hex_signed c2) =
      take_bit 8 (push_bit 4 (hex c1) OR hex c2)"
    by (subst low_byte_of_nibbles, subst (2) low_byte_of_nibbles) (simp only: hex_signed_low_byte)
  then show ?thesis
    unfolding escape_byte_def by (metis char_of_low_byte)
qed

subsection \<open>Helpers for the claims\<close>

lemma main_scan_refines:
  assumes "5 \<le> strlen s" and "strlen s < 2 ^ 31 - 1"
  shows "main_scan True s = Some (map Some (spec_scan (drop 4 (string_of s))))"
proof -
  from assms have "4 \<le> strlen s" by simp
  from allocate_and_scan_refines [OF this assms(2)] show ?thesis
    using passes_assertion [OF assms] by (simp add: main_scan_def)
qed

lemma length_spec_trim: "length (spec_trim out) \<le> length out"
proof -
  have "length (tl (dropWhile isdigit (rev out))) \<le> length (rev out)"
    using length_dropWhile_le [of isdigit "rev out"] by simp
  then show ?thesis by (simp add: spec_trim_def)
qed

lemma escape_byte_digits:
  assumes "n < 16" and "m < 16"
    and "hi = lower_hex \<or> hi = upper_hex" and "lo = lower_hex \<or> lo = upper_hex"
  shows "escape_byte (hi ! n) (lo ! m) = char_of (16 * n + m)"
  using assms by (simp add: escape_byte_def hex_digit high_low_nibble)

lemma isxdigit_not_NUL: "isxdigit c \<Longrightarrow> c \<noteq> NUL"
  using NUL_not_digit(2) by blast

lemma spec_trim_single: "spec_trim [c] = [c]"
  by (simp add: spec_trim_def has_numeric_suffix_def)

lemma char_of_NUL:
  assumes "b < 256"
  shows "char_of b = NUL \<longleftrightarrow> b = (0::nat)"
proof -
  have z: "char_of (0::nat) = NUL" by (simp add: NUL_def char_of_def)
  have "char_of b = char_of (0::nat) \<longleftrightarrow> b mod 256 = 0 mod 256"
    by (rule char_of_quasi_inj)
  then show ?thesis using assms by (simp only: z) simp
qed

lemma has_separator_Cons: "has_separator cs \<Longrightarrow> has_separator (a # cs)"
  by (cases cs) auto

lemma has_escape_Cons: "has_escape cs \<Longrightarrow> has_escape (a # cs)"
  by (cases cs rule: has_escape.cases) auto

lemma has_separator_drop: "has_separator (drop n cs) \<Longrightarrow> has_separator cs"
proof (induction cs arbitrary: n)
  case Nil
  then show ?case by simp
next
  case (Cons a cs)
  then show ?case by (cases n) (auto intro: has_separator_Cons)
qed

lemma has_escape_drop: "has_escape (drop n cs) \<Longrightarrow> has_escape cs"
proof (induction cs arbitrary: n)
  case Nil
  then show ?case by simp
next
  case (Cons a cs)
  then show ?case by (cases n) (auto intro: has_escape_Cons)
qed

lemma spec_scan_literal:
  "\<not> has_separator cs \<Longrightarrow> \<not> has_escape cs \<Longrightarrow> spec_scan cs = cs"
  by (induction cs rule: spec_scan.induct) auto

lemma string_of_no_NUL: "NUL \<notin> set (string_of s)"
proof
  assume "NUL \<in> set (string_of s)"
  then obtain k where "k < length (string_of s)" "string_of s ! k = NUL"
    by (auto simp: in_set_conv_nth)
  then show False using strlen_nth [of k s] by (simp add: length_string_of string_of_nth)
qed

lemma takeWhile_no_NUL: "NUL \<notin> set cs \<Longrightarrow> takeWhile (\<lambda>c. c \<noteq> NUL) cs = cs"
  by (induction cs) auto

lemma strlen_replicate: "c \<noteq> NUL \<Longrightarrow> strlen (replicate n c) = n"
  by (induction n) auto

section \<open>The claims\<close>



text \<open>
  C2. The suffix trim works on the block as the main loop leaves it: the output \<open>out\<close>,
  the terminator behind it, and the rest of the block. It cuts exactly when the output
  has a trailing numeric suffix, that is when the output is not empty, its last byte is
  a decimal digit and the byte in front of the whole trailing run of digits is an
  underscore; the terminator is then written over that underscore, which drops the
  underscore and all behind it. In every other case the block is left as it is. The
  decoder returns the string in the block after this pass (for a name shorter than
  \<open>2\<^sup>3\<^sup>1 - 1\<close> bytes and a granted block). So
  \<^verbatim>\<open>camlFoo__Bar_42\<close> decodes to \<^verbatim>\<open>Foo.Bar\<close>, \<^verbatim>\<open>camlFoo_42\<close> to \<^verbatim>\<open>Foo\<close> and
  \<^verbatim>\<open>camlFoo42\<close> to \<^verbatim>\<open>Foo42\<close>.
\<close>

theorem suffix_trim_exact:
  "(\<forall>p ds. out = p @ CHR ''_'' # ds \<and> ds \<noteq> [] \<and> list_all isdigit ds \<longrightarrow>
      has_numeric_suffix out \<and>
      trim (map Some out @ Some NUL # cells) (length out) =
        Some (map Some p @ Some NUL # map Some ds @ Some NUL # cells))
   \<and> (has_numeric_suffix out \<longrightarrow>
        (\<exists>p ds. out = p @ CHR ''_'' # ds \<and> ds \<noteq> [] \<and> list_all isdigit ds))
   \<and> (\<not> has_numeric_suffix out \<longrightarrow>
        trim (map Some out @ Some NUL # cells) (length out) = Some (map Some out @ Some NUL # cells))
   \<and> (5 \<le> strlen symb \<and> strlen symb < 2 ^ 31 - 1
        \<and> main_scan True symb = Some (map Some out) \<longrightarrow>
        decode True symb = Inr (takeWhile (\<lambda>c. c \<noteq> NUL) (spec_trim out)))
   \<and> decode True ''camlFoo__Bar_42'' = Inr ''Foo.Bar''
   \<and> decode True ''camlFoo_42'' = Inr ''Foo''
   \<and> decode True ''camlFoo42'' = Inr ''Foo42''"
proof (intro conjI allI impI)
  fix p ds
  assume a: "out = p @ CHR ''_'' # ds \<and> ds \<noteq> [] \<and> list_all isdigit ds"
  then show "has_numeric_suffix out" by (simp add: has_numeric_suffixI)
  from a have "trim (map Some (p @ CHR ''_'' # ds) @ Some NUL # cells) (length (p @ CHR ''_'' # ds)) =
      Some (map Some p @ Some NUL # map Some ds @ Some NUL # cells)"
    by (intro trim_cut) simp_all
  with a show "trim (map Some out @ Some NUL # cells) (length out) =
      Some (map Some p @ Some NUL # map Some ds @ Some NUL # cells)"
    by simp
next
  assume "has_numeric_suffix out"
  then show "\<exists>p ds. out = p @ CHR ''_'' # ds \<and> ds \<noteq> [] \<and> list_all isdigit ds"
    by (rule has_numeric_suffixD)
next
  assume "\<not> has_numeric_suffix out"
  then show "trim (map Some out @ Some NUL # cells) (length out) = Some (map Some out @ Some NUL # cells)"
    by (rule trim_keep)
next
  assume a: "5 \<le> strlen symb \<and> strlen symb < 2 ^ 31 - 1
      \<and> main_scan True symb = Some (map Some out)"
  then have "5 \<le> strlen symb" and "strlen symb < 2 ^ 31 - 1" by simp_all
  then have "main_scan True symb = Some (map Some (spec_scan (drop 4 (string_of symb))))"
    by (rule main_scan_refines)
  with a have "map Some (spec_scan (drop 4 (string_of symb))) = map Some out"
    by simp
  then have "spec_scan (drop 4 (string_of symb)) = out"
    by (simp only: inj_map_eq_map [OF inj_Some])
  with a show "decode True symb = Inr (takeWhile (\<lambda>c. c \<noteq> NUL) (spec_trim out))"
    by (simp add: decode_refines)
next
  show "decode True ''camlFoo__Bar_42'' = Inr ''Foo.Bar''" by code_simp
next
  show "decode True ''camlFoo_42'' = Inr ''Foo''" by code_simp
next
  show "decode True ''camlFoo42'' = Inr ''Foo42''" by code_simp
qed

text \<open>The witness of C2: one output with a numeric suffix and one without.\<close>

theorem suffix_trim_exact_witness:
  "''Foo_42'' = ''Foo'' @ CHR ''_'' # ''42'' \<and> ''42'' \<noteq> [] \<and> list_all isdigit ''42''
   \<and> has_numeric_suffix ''Foo_42''
   \<and> trim (map Some ''Foo_42'' @ [Some NUL, None]) (length ''Foo_42'') =
        Some (map Some ''Foo'' @ Some NUL # map Some ''42'' @ [Some NUL, None])
   \<and> \<not> has_numeric_suffix ''Foo42''
   \<and> trim (map Some ''Foo42'' @ [Some NUL, None]) (length ''Foo42'') =
        Some (map Some ''Foo42'' @ [Some NUL, None])
   \<and> 5 \<le> strlen ''camlFoo_42'' \<and> strlen ''camlFoo_42'' < 2 ^ 31 - 1
   \<and> main_scan True ''camlFoo_42'' = Some (map Some ''Foo_42'')
   \<and> decode True ''camlFoo_42'' = Inr (takeWhile (\<lambda>c. c \<noteq> NUL) (spec_trim ''Foo_42''))"
proof -
  have h: "''Foo_42'' = ''Foo'' @ CHR ''_'' # ''42'' \<and> ''42'' \<noteq> [] \<and> list_all isdigit ''42''"
    by (simp add: isdigit_def)
  have n: "\<not> has_numeric_suffix ''Foo42''"
    by (simp add: has_numeric_suffix_def isdigit_def)
  have l: "5 \<le> strlen ''camlFoo_42'' \<and> strlen ''camlFoo_42'' < 2 ^ 31 - 1"
    by (simp add: NUL_def)
  have m: "main_scan True ''camlFoo_42'' = Some (map Some ''Foo_42'')"
    by code_simp
  show ?thesis
    using h n l m suffix_trim_exact [of "''Foo_42''" "[None]" "''camlFoo_42''"]
      suffix_trim_exact [of "''Foo42''" "[None]"]
    by blast
qed

text \<open>
  C3. On every input of length at least 5 (and shorter than \<open>2\<^sup>3\<^sup>1 - 1\<close> bytes, the
  block being granted) the main loop reads no byte outside the string: a read succeeds
  exactly at the indices up to the length, the last of which holds the terminator, and
  the loop, in which a failed read would end the run, ends with a result. At a
  position \<open>i\<close> of the input the separator rule matches only if the byte at \<open>i + 1\<close>
  lies inside the input, and the escape rule only if the bytes at \<open>i + 1\<close> and
  \<open>i + 2\<close> do; a rule whose bytes are missing does not match.
\<close>

theorem main_scan_reads_in_bounds:
  assumes "5 \<le> strlen symb" and "strlen symb < 2 ^ 31 - 1"
  shows "(\<forall>k. (\<exists>c. sym_at symb k = Some c) \<longleftrightarrow> k \<le> strlen symb)
    \<and> (\<exists>cells. main_scan True symb = Some cells)
    \<and> (\<forall>i < strlen symb.
         (\<exists>sep. is_separator symb i = Some sep \<and> (sep \<longrightarrow> i + 1 < strlen symb)) \<and>
         (\<exists>esc. is_escape symb i = Some esc \<and> (esc \<longrightarrow> i + 2 < strlen symb)))"
proof (intro conjI allI impI)
  fix k show "(\<exists>c. sym_at symb k = Some c) \<longleftrightarrow> k \<le> strlen symb"
    by (auto simp: sym_at_def)
next
  show "\<exists>cells. main_scan True symb = Some cells"
    using assms by (simp add: main_scan_refines)
next
  fix i assume "i < strlen symb"
  then show "\<exists>sep. is_separator symb i = Some sep \<and> (sep \<longrightarrow> i + 1 < strlen symb)"
    by (simp add: is_separator_eq)
next
  fix i assume "i < strlen symb"
  then show "\<exists>esc. is_escape symb i = Some esc \<and> (esc \<longrightarrow> i + 2 < strlen symb)"
    by (simp add: is_escape_eq)
qed

text \<open>
  The witness of C3: an underscore in front of the last two bytes, a \<^verbatim>\<open>$\<close> with one hex
  digit behind it at the end.
\<close>

theorem main_scan_reads_in_bounds_witness:
  "5 \<le> strlen ''caml_$a'' \<and> strlen ''caml_$a'' < 2 ^ 31 - 1
   \<and> (\<exists>cells. main_scan True ''caml_$a'' = Some cells)
   \<and> is_separator ''caml_$a'' 4 = Some False
   \<and> is_escape ''caml_$a'' 5 = Some False
   \<and> is_escape ''caml_$a'' 6 = Some False"
proof -
  have h: "5 \<le> strlen ''caml_$a''" and b: "strlen ''caml_$a'' < 2 ^ 31 - 1"
    by (simp_all add: NUL_def)
  have "is_separator ''caml_$a'' 4 = Some False" "is_escape ''caml_$a'' 5 = Some False"
     "is_escape ''caml_$a'' 6 = Some False"
    by code_simp+
  then show ?thesis using h b main_scan_reads_in_bounds [OF h b] by blast
qed

text \<open>
  C4, as the specification states it, says that \<^verbatim>\<open>caml\<close> decodes to the empty output.
  The function asserts \<^verbatim>\<open>len >= 5\<close> first, and the length of \<^verbatim>\<open>caml\<close> is 4: there is
  no output.
\<close>

theorem prefix_only_not_decoded:
  "decode True ''caml'' \<noteq> Inr '''' \<and> decode False ''caml'' \<noteq> Inr ''''"
  by code_simp

text \<open>
  C4, amended. Decoding \<^verbatim>\<open>caml\<close> fails the assertion \<^verbatim>\<open>len >= 5\<close> and gives no output.
  The statements behind the assertion, run on \<^verbatim>\<open>caml\<close>, would leave the empty string
  in the block, and the suffix trim changes nothing on an empty output.
\<close>

theorem prefix_only_asserts:
  "decode True ''caml'' = Inl AssertionFailed
   \<and> decode False ''caml'' = Inl AssertionFailed
   \<and> demangle_body True ''caml'' (strlen ''caml'') = Some (Some NUL # replicate 4 None)
   \<and> c_string (Some NUL # replicate 4 None) = Some ''''
   \<and> trim (Some NUL # replicate 4 None) 0 = Some (Some NUL # replicate 4 None)"
  by code_simp

text \<open>
  C6. On every input of length at least 5 (and shorter than \<open>2\<^sup>3\<^sup>1 - 1\<close> bytes, the
  block being granted) the decoder returns an output, and the output is at most as
  long as the input without its four bytes of prefix.
\<close>

theorem decode_length_bound:
  assumes "5 \<le> strlen symb" and "strlen symb < 2 ^ 31 - 1"
  shows "\<exists>out. decode True symb = Inr out \<and> length out \<le> strlen symb - 4"
proof -
  let ?scanned = "spec_scan (drop 4 (string_of symb))"
  have "length (takeWhile (\<lambda>c. c \<noteq> NUL) (spec_trim ?scanned)) \<le> length (spec_trim ?scanned)"
    by (rule length_takeWhile_le)
  also have "\<dots> \<le> length ?scanned" by (rule length_spec_trim)
  also have "\<dots> \<le> strlen symb - 4" by (rule length_scanned)
  finally show ?thesis using assms by (simp add: decode_refines)
qed

text \<open>The witness of C6.\<close>

theorem decode_length_bound_witness:
  "5 \<le> strlen ''camlFoo__Bar_42'' \<and> strlen ''camlFoo__Bar_42'' < 2 ^ 31 - 1
   \<and> (\<exists>out. decode True ''camlFoo__Bar_42'' = Inr out \<and> length out \<le> strlen ''camlFoo__Bar_42'' - 4)"
proof -
  have h: "5 \<le> strlen ''camlFoo__Bar_42''" and b: "strlen ''camlFoo__Bar_42'' < 2 ^ 31 - 1"
    by (simp_all add: NUL_def)
  show ?thesis using h b decode_length_bound [OF h b] by blast
qed

text \<open>
  C7, as the specification states it, has the length check as the only way to fail.
  The function stores through the pointer that \<^verbatim>\<open>std::malloc\<close> returns without
  examining it, so a refused request is a second way to fail, here on a name of five
  bytes; and on a name of \<open>2\<^sup>3\<^sup>1 - 1\<close> bytes, which passes the assertion, the size
  \<^verbatim>\<open>len + 1\<close> of the block overflows.
\<close>

theorem failure_behind_the_assertion:
  "strlen ''caml_'' = 5
   \<and> ocamlDemangle False ''caml_'' = Inl UndefinedBehaviour
   \<and> strlen (replicate (2 ^ 31 - 1) CHR ''x'') = 2 ^ 31 - 1
   \<and> ocamlDemangle True (replicate (2 ^ 31 - 1) CHR ''x'') = Inl UndefinedBehaviour"
proof (intro conjI)
  show "strlen ''caml_'' = 5" by code_simp
  show "ocamlDemangle False ''caml_'' = Inl UndefinedBehaviour" by code_simp
  show len: "strlen (replicate (2 ^ 31 - 1) CHR ''x'') = 2 ^ 31 - 1"
    by (simp add: strlen_replicate NUL_def)
  then show "ocamlDemangle True (replicate (2 ^ 31 - 1) CHR ''x'') = Inl UndefinedBehaviour"
    by (simp add: ocamlDemangle_def to_int_def demangle_body_def allocate_and_scan_def
        int_add_def INT_MAX_def)
qed

text \<open>
  C7, amended. On every input of length 4 or less the assertion \<^verbatim>\<open>len >= 5\<close> fails (the
  condition that the specification calls InputTooShort) and there is no output,
  whatever the allocator does. On every input of length at least 5 and shorter than
  \<open>2\<^sup>3\<^sup>1 - 1\<close> bytes the decoder returns an output whenever the block is granted.
\<close>

theorem too_short_fails_else_output:
  "(strlen symb \<le> 4 \<longrightarrow>
      ocamlDemangle granted symb = Inl AssertionFailed \<and> decode granted symb = Inl AssertionFailed)
   \<and> (5 \<le> strlen symb \<and> strlen symb < 2 ^ 31 - 1 \<longrightarrow> (\<exists>out. decode True symb = Inr out))"
proof (intro conjI impI)
  assume "strlen symb \<le> 4"
  then have "\<not> to_int (strlen symb) \<ge> 5" by (simp add: to_int_id)
  then show "ocamlDemangle granted symb = Inl AssertionFailed"
    by (simp add: ocamlDemangle_def)
  then show "decode granted symb = Inl AssertionFailed"
    by (simp add: decode_def)
next
  assume "5 \<le> strlen symb \<and> strlen symb < 2 ^ 31 - 1"
  then show "\<exists>out. decode True symb = Inr out"
    by (simp add: decode_refines)
qed

text \<open>The witness of C7: the bare prefix fails, the prefix with one more byte decodes.\<close>

theorem too_short_fails_else_output_witness:
  "strlen ''caml'' \<le> 4 \<and> decode False ''caml'' = Inl AssertionFailed
   \<and> 5 \<le> strlen ''caml_'' \<and> strlen ''caml_'' < 2 ^ 31 - 1 \<and> (\<exists>out. decode True ''caml_'' = Inr out)"
  using too_short_fails_else_output [of "''caml''" False] too_short_fails_else_output [of "''caml_''"]
  by (simp add: NUL_def)

text \<open>
  C5, as the specification states it, covers every byte value from 0 to 255. The byte
  0 is the terminator of a C string: the escape \<^verbatim>\<open>$00\<close> writes it into the block, and
  the string that the caller reads ends there. The output is empty, not the single
  byte 0.
\<close>

theorem escape_zero_is_empty:
  "decode True (''caml'' @ ''$'' @ twoHexDigits lower_hex lower_hex 0) = Inr []
   \<and> decode True (''caml'' @ ''$'' @ twoHexDigits lower_hex lower_hex 0) \<noteq> Inr [char_of (0::nat)]"
  by code_simp

text \<open>
  C5, amended. For every byte value \<open>b\<close> from 1 to 255 and every spelling of \<open>b\<close> with
  two hex digits, each in lowercase or uppercase and the high nibble first, the
  prefix followed by \<^verbatim>\<open>$\<close> and the two digits decodes to the single byte \<open>b\<close>. For
  \<open>b = 0\<close> the decoded byte is the terminator and the returned string is empty.
\<close>

theorem escape_round_trip:
  assumes "b < 256"
    and "hi = lower_hex \<or> hi = upper_hex" and "lo = lower_hex \<or> lo = upper_hex"
  shows "decode True (''caml'' @ ''$'' @ twoHexDigits hi lo b) = Inr (if b = 0 then [] else [char_of b])"
proof -
  let ?h = "hi ! (b div 16)" and ?l = "lo ! (b mod 16)"
  let ?symb = "''caml'' @ ''$'' @ twoHexDigits hi lo b"
  have n: "b div 16 < 16" "b mod 16 < 16" using assms(1) by simp_all
  have x: "isxdigit ?h" "isxdigit ?l"
    using n assms(2,3) by (simp_all add: hex_digit)
  then have "?h \<noteq> NUL" "?l \<noteq> NUL" by (simp_all add: isxdigit_not_NUL)
  then have len: "strlen ?symb = 7" and str: "string_of ?symb = ?symb"
    by (simp_all add: twoHexDigits_def string_of_def NUL_def)
  have "escape_byte ?h ?l = char_of (16 * (b div 16) + b mod 16)"
    using n assms(2,3) by (rule escape_byte_digits)
  then have "escape_byte ?h ?l = char_of b" by simp
  then have "spec_scan (drop 4 ?symb) = [char_of b]"
    using x by (simp add: twoHexDigits_def)
  then have "spec_scan (drop 4 (string_of ?symb)) = [char_of b]"
    by (simp only: str)
  then have "decode True ?symb = Inr (takeWhile (\<lambda>c. c \<noteq> NUL) [char_of b])"
    using len by (simp add: decode_refines spec_trim_single)
  then show ?thesis using assms(1) by (simp add: char_of_NUL)
qed

text \<open>The witness of C5: the byte 0x4A, its high digit from the lowercase and its low digit from the uppercase digits.\<close>

theorem escape_round_trip_witness:
  "(74::nat) < 256 \<and> (lower_hex = lower_hex \<or> lower_hex = upper_hex) \<and> (upper_hex = lower_hex \<or> upper_hex = upper_hex)
   \<and> twoHexDigits lower_hex upper_hex 74 = ''4A''
   \<and> decode True (''caml'' @ ''$'' @ ''4A'') = Inr ''J''"
proof -
  have d: "twoHexDigits lower_hex upper_hex 74 = ''4A''" by code_simp
  have j: "[char_of (74::nat)] = ''J''" by code_simp
  show ?thesis
    using escape_round_trip [of 74 lower_hex upper_hex] d j by simp
qed

text \<open>
  C8. An input of length at least 5 (and shorter than \<open>2\<^sup>3\<^sup>1 - 1\<close> bytes, the block
  being granted) that holds no pair \<^verbatim>\<open>__\<close> and no \<^verbatim>\<open>$\<close> with two
  hex digits behind it, and whose part behind the prefix has no trailing numeric suffix
  (an underscore with one or more decimal digits at the end), decodes to itself without
  its first four bytes.
\<close>

theorem literal_pass_through:
  assumes "5 \<le> strlen symb" and "strlen symb < 2 ^ 31 - 1"
    and "\<not> has_separator (string_of symb)"
    and "\<not> has_escape (string_of symb)"
    and "\<not> has_numeric_suffix (drop 4 (string_of symb))"
  shows "decode True symb = Inr (drop 4 (string_of symb))"
proof -
  let ?body = "drop 4 (string_of symb)"
  have "\<not> has_separator ?body" "\<not> has_escape ?body"
    using assms(3,4) has_separator_drop has_escape_drop by blast+
  then have "spec_scan ?body = ?body" by (rule spec_scan_literal)
  moreover have "spec_trim ?body = ?body" using assms(5) by (simp add: spec_trim_def)
  moreover have "NUL \<notin> set ?body" using string_of_no_NUL [of symb] by (auto dest: in_set_dropD)
  ultimately show ?thesis
    using assms(1,2) by (simp add: decode_refines takeWhile_no_NUL)
qed

text \<open>
  The witness of C8: lone underscores, a \<^verbatim>\<open>$\<close> with one hex digit and digits at the end
  with a letter in front of them.
\<close>

theorem literal_pass_through_witness:
  "5 \<le> strlen ''caml_Foo$4_g_7x42'' \<and> strlen ''caml_Foo$4_g_7x42'' < 2 ^ 31 - 1
   \<and> \<not> has_separator (string_of ''caml_Foo$4_g_7x42'')
   \<and> \<not> has_escape (string_of ''caml_Foo$4_g_7x42'')
   \<and> \<not> has_numeric_suffix (drop 4 (string_of ''caml_Foo$4_g_7x42''))
   \<and> decode True ''caml_Foo$4_g_7x42'' = Inr ''_Foo$4_g_7x42''"
proof -
  have h1: "5 \<le> strlen ''caml_Foo$4_g_7x42''" by (simp add: NUL_def)
  have h0: "strlen ''caml_Foo$4_g_7x42'' < 2 ^ 31 - 1" by (simp add: NUL_def)
  have s: "string_of ''caml_Foo$4_g_7x42'' = ''caml_Foo$4_g_7x42''" by code_simp
  have h2: "\<not> has_separator (string_of ''caml_Foo$4_g_7x42'')" by code_simp
  have h3: "\<not> has_escape (string_of ''caml_Foo$4_g_7x42'')" by code_simp
  have h4: "\<not> has_numeric_suffix (drop 4 (string_of ''caml_Foo$4_g_7x42''))" by code_simp
  show ?thesis using h0 h1 h2 h3 h4 literal_pass_through [OF h1 h0 h2 h3 h4] by (simp add: s)
qed

text \<open>
  C9. The suffix trim can delete the whole output: whenever the main loop (on a name
  shorter than \<open>2\<^sup>3\<^sup>1 - 1\<close> bytes, the block being granted) has written
  one underscore and behind it decimal digits only (one or more), the decoder returns
  the empty string, although the input has a body. \<^verbatim>\<open>caml_42\<close> is an example.
\<close>

theorem trim_can_delete_everything:
  "(5 \<le> strlen symb \<and> strlen symb < 2 ^ 31 - 1
      \<and> main_scan True symb = Some (map Some (CHR ''_'' # ds))
      \<and> ds \<noteq> [] \<and> list_all isdigit ds \<longrightarrow> decode True symb = Inr [])
   \<and> decode True ''caml_42'' = Inr []"
proof (intro conjI impI)
  assume a: "5 \<le> strlen symb \<and> strlen symb < 2 ^ 31 - 1
      \<and> main_scan True symb = Some (map Some (CHR ''_'' # ds))
      \<and> ds \<noteq> [] \<and> list_all isdigit ds"
  then have "5 \<le> strlen symb" and "strlen symb < 2 ^ 31 - 1" by simp_all
  then have "main_scan True symb = Some (map Some (spec_scan (drop 4 (string_of symb))))"
    by (rule main_scan_refines)
  with a have "map Some (spec_scan (drop 4 (string_of symb))) = map Some ([] @ CHR ''_'' # ds)"
    by simp
  then have "spec_scan (drop 4 (string_of symb)) = [] @ CHR ''_'' # ds"
    by (simp only: inj_map_eq_map [OF inj_Some])
  moreover have "spec_trim ([] @ CHR ''_'' # ds) = []"
    using a by (intro spec_trim_suffix) simp_all
  ultimately show "decode True symb = Inr []" using a by (simp add: decode_refines)
next
  show "decode True ''caml_42'' = Inr []" by code_simp
qed

text \<open>The witness of C9: the underscore and the digit both come from escapes.\<close>

theorem trim_can_delete_everything_witness:
  "5 \<le> strlen ''caml$5f$37'' \<and> strlen ''caml$5f$37'' < 2 ^ 31 - 1 \<and> main_scan True ''caml$5f$37'' = Some (map Some (CHR ''_'' # ''7''))
   \<and> ''7'' \<noteq> [] \<and> list_all isdigit ''7'' \<and> decode True ''caml$5f$37'' = Inr []"
proof -
  have h1: "5 \<le> strlen ''caml$5f$37'' \<and> strlen ''caml$5f$37'' < 2 ^ 31 - 1" by (simp add: NUL_def)
  have h2: "main_scan True ''caml$5f$37'' = Some (map Some (CHR ''_'' # ''7''))" by code_simp
  have h3: "''7'' \<noteq> [] \<and> list_all isdigit ''7''" by (simp add: isdigit_def)
  show ?thesis using h1 h2 h3 trim_can_delete_everything [of "''caml$5f$37''" "''7''"] by blast
qed

text \<open>
  C10. The suffix trim runs once and cuts the last underscore with its digits and no
  more: when the main loop (on a name shorter than \<open>2\<^sup>3\<^sup>1 - 1\<close> bytes, the block
  being granted) has written \<open>p\<close>, an underscore and one or more decimal
  digits, the decoder returns exactly \<open>p\<close>, also when \<open>p\<close> itself ends in an underscore
  with digits. \<^verbatim>\<open>camlFoo_1_2\<close> decodes to \<^verbatim>\<open>Foo_1\<close>, which still has a numeric
  suffix, and not to \<^verbatim>\<open>Foo\<close>.
\<close>

theorem trim_cuts_one_suffix:
  "(5 \<le> strlen symb \<and> strlen symb < 2 ^ 31 - 1
      \<and> main_scan True symb = Some (map Some (p @ CHR ''_'' # ds))
      \<and> ds \<noteq> [] \<and> list_all isdigit ds \<and> NUL \<notin> set p \<longrightarrow> decode True symb = Inr p)
   \<and> decode True ''camlFoo_1_2'' = Inr ''Foo_1''
   \<and> has_numeric_suffix ''Foo_1''"
proof (intro conjI impI)
  assume a: "5 \<le> strlen symb \<and> strlen symb < 2 ^ 31 - 1
      \<and> main_scan True symb = Some (map Some (p @ CHR ''_'' # ds))
      \<and> ds \<noteq> [] \<and> list_all isdigit ds \<and> NUL \<notin> set p"
  then have "5 \<le> strlen symb" and "strlen symb < 2 ^ 31 - 1" by simp_all
  then have "main_scan True symb = Some (map Some (spec_scan (drop 4 (string_of symb))))"
    by (rule main_scan_refines)
  with a have "map Some (spec_scan (drop 4 (string_of symb))) = map Some (p @ CHR ''_'' # ds)"
    by simp
  then have "spec_scan (drop 4 (string_of symb)) = p @ CHR ''_'' # ds"
    by (simp only: inj_map_eq_map [OF inj_Some])
  moreover have "spec_trim (p @ CHR ''_'' # ds) = p"
    using a by (intro spec_trim_suffix) simp_all
  ultimately show "decode True symb = Inr p" using a by (simp add: decode_refines takeWhile_no_NUL)
next
  show "decode True ''camlFoo_1_2'' = Inr ''Foo_1''" by code_simp
next
  show "has_numeric_suffix ''Foo_1''" by code_simp
qed

text \<open>The witness of C10.\<close>

theorem trim_cuts_one_suffix_witness:
  "5 \<le> strlen ''camlFoo_1_2'' \<and> strlen ''camlFoo_1_2'' < 2 ^ 31 - 1 \<and> main_scan True ''camlFoo_1_2'' = Some (map Some (''Foo_1'' @ CHR ''_'' # ''2''))
   \<and> ''2'' \<noteq> [] \<and> list_all isdigit ''2'' \<and> NUL \<notin> set ''Foo_1'' \<and> decode True ''camlFoo_1_2'' = Inr ''Foo_1''"
proof -
  have h1: "5 \<le> strlen ''camlFoo_1_2'' \<and> strlen ''camlFoo_1_2'' < 2 ^ 31 - 1" by (simp add: NUL_def)
  have h2: "main_scan True ''camlFoo_1_2'' = Some (map Some (''Foo_1'' @ CHR ''_'' # ''2''))" by code_simp
  have h3: "''2'' \<noteq> [] \<and> list_all isdigit ''2'' \<and> NUL \<notin> set ''Foo_1''" by (simp add: isdigit_def NUL_def)
  show ?thesis using h1 h2 h3 trim_cuts_one_suffix [of "''camlFoo_1_2''" "''Foo_1''" "''2''"] by blast
qed

end
